theory Spec2Isabelle
  imports Complex_Main "HOL-Library.Multiset"
begin

section \<open>CoNLL-U sentence splitting: the data model\<close>

text \<open>
  The program \<^verbatim>\<open>split_diachron_data.py\<close> reads CoNLL-U files, shuffles their
  sentences and writes train, dev and test files. A line is a Python \<^verbatim>\<open>str\<close>; it is
  modelled by the list of the bytes of its UTF-8 form, which is what the files are
  opened with. The two characters the program looks at, line feed and carriage return,
  are single bytes that occur in no multi-byte UTF-8 sequence, so splitting, stripping
  and comparing with the empty string agree on both views.
\<close>

type_synonym line = string
type_synonym sentence = "line list"

abbreviation NL :: char where "NL \<equiv> CHR 0x0A"
abbreviation CR :: char where "CR \<equiv> CHR 0x0D"

section \<open>Text files\<close>

text \<open>
  Both functions open their file in text mode with the default \<^verbatim>\<open>newline=None\<close>.
  Reading is then in universal-newlines mode: \<^verbatim>\<open>'\r\n'\<close> and a lone \<^verbatim>\<open>'\r'\<close> arrive
  as \<^verbatim>\<open>'\n'\<close>, and iterating over the file yields the text cut after each
  \<^verbatim>\<open>'\n'\<close>, the terminator kept, the last line without one when the file does not end
  in a terminator. Writing replaces each \<^verbatim>\<open>'\n'\<close> by \<^verbatim>\<open>os.linesep\<close>, which depends on
  the platform.
\<close>

fun universal_newlines :: "string \<Rightarrow> string" where
  "universal_newlines [] = []"
| "universal_newlines [c] = (if c = CR then [NL] else [c])"
| "universal_newlines (c # d # rest) =
     (if c = CR \<and> d = NL then NL # universal_newlines rest
      else if c = CR then NL # universal_newlines (d # rest)
      else c # universal_newlines (d # rest))"

fun split_lines :: "string \<Rightarrow> string \<Rightarrow> string list" where
  "split_lines cur [] = (if cur = [] then [] else [cur])"
| "split_lines cur (c # rest) =
     (if c = NL then (cur @ [NL]) # split_lines [] rest else split_lines (cur @ [c]) rest)"

definition text_lines :: "string \<Rightarrow> string list" where
  "text_lines content = split_lines [] (universal_newlines content)"

datatype platform = Posix | Windows

fun linesep :: "platform \<Rightarrow> string" where
  "linesep Posix = [NL]"
| "linesep Windows = [CR, NL]"

definition text_write :: "platform \<Rightarrow> string \<Rightarrow> string" where
  "text_write p s = concat (map (\<lambda>c. if c = NL then linesep p else [c]) s)"

section \<open>The reader\<close>

text \<open>\<^verbatim>\<open>line.rstrip('\n')\<close>: every trailing line feed is removed, nothing else.\<close>

definition rstrip_nl :: "string \<Rightarrow> string" where
  "rstrip_nl s = rev (dropWhile (\<lambda>c. c = NL) (rev s))"

text \<open>
  The body of \<^verbatim>\<open>for line in f\<close> in \<^verbatim>\<open>read_conllu_sentences\<close>, over the lines the file
  iterator yields, threading the two local variables \<^verbatim>\<open>sentences\<close> and
  \<^verbatim>\<open>current_sentence\<close>.
\<close>

fun read_loop :: "string list \<Rightarrow> sentence list \<times> sentence \<Rightarrow> sentence list \<times> sentence" where
  "read_loop [] (sentences, current_sentence) = (sentences, current_sentence)"
| "read_loop (line0 # rest) (sentences, current_sentence) =
     (let line = rstrip_nl line0 in
      if line = [] then
        (if current_sentence \<noteq> [] then read_loop rest (sentences @ [current_sentence], [])
         else read_loop rest (sentences, current_sentence))
      else read_loop rest (sentences, current_sentence @ [line]))"

text \<open>The statements after the loop: a pending sentence is added, the list returned.\<close>

fun read_finish :: "sentence list \<times> sentence \<Rightarrow> sentence list" where
  "read_finish (sentences, current_sentence) =
     (if current_sentence \<noteq> [] then sentences @ [current_sentence] else sentences)"

definition read_conllu_lines :: "string list \<Rightarrow> sentence list" where
  "read_conllu_lines ls = read_finish (read_loop ls ([], []))"

text \<open>
  \<^verbatim>\<open>read_conllu_sentences(file_path)\<close>, as a function of the content of the file at
  \<^verbatim>\<open>file_path\<close>.
\<close>

definition read_conllu_sentences :: "string \<Rightarrow> sentence list" where
  "read_conllu_sentences content = read_conllu_lines (text_lines content)"

text \<open>
  The specification's notion of a sentence, independent of the loop: a maximal run of
  non-blank lines. Blank lines are skipped, then the lines up to the next blank one
  form a sentence, and so on.
\<close>

function sentence_runs :: "line list \<Rightarrow> sentence list" where
  "sentence_runs ls =
     (case dropWhile (\<lambda>l. l = []) ls of
        [] \<Rightarrow> []
      | l # rest \<Rightarrow>
          takeWhile (\<lambda>l. l \<noteq> []) (l # rest) # sentence_runs (dropWhile (\<lambda>l. l \<noteq> []) rest))"
  by pat_completeness auto
termination
proof (relation "measure length", goal_cases)
  case 1
  show ?case by simp
next
  case (2 ls l rest)
  have "length (dropWhile (\<lambda>l. l \<noteq> []) rest) \<le> length rest"
    by (rule length_dropWhile_le)
  moreover have "length (l # rest) \<le> length ls"
    using 2 length_dropWhile_le [of "\<lambda>l. l = []" ls] by simp
  ultimately show ?case by simp
qed

declare sentence_runs.simps [simp del]

text \<open>
  The specification's notion of the content of a line, independent of \<^verbatim>\<open>rstrip\<close>: the
  line without the line feeds at its end. A character is kept unless it is a line feed
  and nothing but line feeds follows it.
\<close>

fun spec_line_content :: "string \<Rightarrow> string" where
  "spec_line_content [] = []"
| "spec_line_content (c # cs) =
     (if c = NL \<and> spec_line_content cs = [] then [] else c # spec_line_content cs)"

section \<open>The writer\<close>

text \<open>
  \<^verbatim>\<open>write_conllu_sentences\<close>: the argument \<^verbatim>\<open>f\<close> is the text passed to \<^verbatim>\<open>f.write\<close> so
  far. The file is opened with \<^verbatim>\<open>'w'\<close>, so it starts empty. The index \<^verbatim>\<open>i\<close> of
  \<^verbatim>\<open>enumerate\<close> and \<^verbatim>\<open>len(sentences)\<close> are Python integers, and the comparison is made
  on integers.
\<close>

fun write_lines :: "sentence \<Rightarrow> string \<Rightarrow> string" where
  "write_lines [] f = f"
| "write_lines (line # rest) f = write_lines rest (f @ (line @ [NL]))"

fun write_loop :: "nat \<Rightarrow> sentence list \<Rightarrow> nat \<Rightarrow> string \<Rightarrow> string" where
  "write_loop n [] i f = f"
| "write_loop n (sentence # rest) i f =
     (let f1 = write_lines sentence f;
          f2 = (if int i < int n - 1 then f1 @ [NL] else f1)
      in write_loop n rest (i + 1) f2)"

definition write_conllu_sentences :: "sentence list \<Rightarrow> string" where
  "write_conllu_sentences sentences = write_loop (length sentences) sentences 0 []"

text \<open>
  The specification of the written text, in its own words: each sentence's lines, each
  followed by one line terminator; one blank line between consecutive sentences; nothing
  after the last sentence.
\<close>

definition spec_sentence_text :: "sentence \<Rightarrow> string" where
  "spec_sentence_text s = concat (map (\<lambda>l. l @ [NL]) s)"

fun spec_written_text :: "sentence list \<Rightarrow> string" where
  "spec_written_text [] = []"
| "spec_written_text [s] = spec_sentence_text s"
| "spec_written_text (s # t # rest) = spec_sentence_text s @ [NL] @ spec_written_text (t # rest)"

text \<open>The lines the round trip is claimed for: not empty, no line terminator inside.\<close>

definition plain_line :: "line \<Rightarrow> bool" where
  "plain_line l = (l \<noteq> [] \<and> NL \<notin> set l \<and> CR \<notin> set l)"

definition plain_sentence :: "sentence \<Rightarrow> bool" where
  "plain_sentence s = (s \<noteq> [] \<and> list_all plain_line s)"

section \<open>The partitioner\<close>

subsection \<open>The split sizes, in double precision\<close>

text \<open>
  \<^verbatim>\<open>int(0.8 * total_sentences)\<close> is a computation on IEEE 754 doubles: the literal
  \<^verbatim>\<open>0.8\<close> is the double \<open>3602879701896397 / 2^52\<close>, the literal \<^verbatim>\<open>0.1\<close> is the double
  \<open>3602879701896397 / 2^55\<close>, the integer is converted to the nearest double, the
  product is rounded to the nearest double, and \<^verbatim>\<open>int\<close> truncates. All values here are
  positive and far from the overflow and underflow thresholds (a list has fewer than
  \<open>2^63\<close> elements), so a double is an integer of at most 53 significant bits times a
  power of two, and rounding to the nearest double, ties to even, is rounding an
  integer numerator to 53 significant bits.
\<close>

fun bitlen :: "nat \<Rightarrow> nat" where
  "bitlen n = (if n = 0 then 0 else Suc (bitlen (n div 2)))"

declare bitlen.simps [simp del]

definition round_half_even :: "nat \<Rightarrow> nat \<Rightarrow> nat" where
  "round_half_even m s =
     (let q = m div 2 ^ s; r = m mod 2 ^ s in
      if 2 * r < 2 ^ s then q
      else if 2 ^ s < 2 * r then q + 1
      else if even q then q else q + 1)"

definition round53 :: "nat \<Rightarrow> nat" where
  "round53 m = (let s = bitlen m - 53 in round_half_even m s * 2 ^ s)"

definition train_size :: "nat \<Rightarrow> nat" where
  "train_size total_sentences =
     round53 (3602879701896397 * round53 total_sentences) div 2 ^ 52"

definition dev_size :: "nat \<Rightarrow> nat" where
  "dev_size total_sentences =
     round53 (3602879701896397 * round53 total_sentences) div 2 ^ 55"

definition test_size :: "nat \<Rightarrow> int" where
  "test_size total_sentences =
     int total_sentences - int (train_size total_sentences) - int (dev_size total_sentences)"

subsection \<open>The shuffle\<close>

text \<open>
  \<^verbatim>\<open>random.shuffle(x)\<close> of the standard library is
  \<^verbatim>\<open>for i in reversed(range(1, len(x))): j = randbelow(i + 1); x[i], x[j] = x[j], x[i]\<close>.
  The generator is a parameter: \<open>'g\<close> is its state, \<open>seed\<close> builds the state from
  the seed, and \<open>randbelow g n\<close> returns a number and the next state.
\<close>

fun shuffle_loop :: "('g \<Rightarrow> nat \<Rightarrow> nat \<times> 'g) \<Rightarrow> nat \<Rightarrow> 'a list \<times> 'g \<Rightarrow> 'a list \<times> 'g" where
  "shuffle_loop randbelow 0 (x, g) = (x, g)"
| "shuffle_loop randbelow (Suc k) (x, g) =
     (let i = Suc k in
      case randbelow g (i + 1) of
        (j, g') \<Rightarrow> shuffle_loop randbelow k (x[i := x ! j, j := x ! i], g'))"

definition shuffle :: "('g \<Rightarrow> nat \<Rightarrow> nat \<times> 'g) \<Rightarrow> 'g \<Rightarrow> 'a list \<Rightarrow> 'a list \<times> 'g" where
  "shuffle randbelow g x = shuffle_loop randbelow (length x - 1) (x, g)"

subsection \<open>The slices\<close>

text \<open>
  The three slices of the shuffled list. The sizes are not negative, so
  \<^verbatim>\<open>a[:t]\<close> is \<open>take t a\<close>, \<^verbatim>\<open>a[t:t + d]\<close> is \<open>take d (drop t a)\<close> and
  \<^verbatim>\<open>a[t + d:]\<close> is \<open>drop (t + d) a\<close>.
\<close>

definition train_sentences :: "'a list \<Rightarrow> 'a list" where
  "train_sentences all_sentences = take (train_size (length all_sentences)) all_sentences"

definition dev_sentences :: "'a list \<Rightarrow> 'a list" where
  "dev_sentences all_sentences =
     take (dev_size (length all_sentences)) (drop (train_size (length all_sentences)) all_sentences)"

definition test_sentences :: "'a list \<Rightarrow> 'a list" where
  "test_sentences all_sentences =
     drop (train_size (length all_sentences) + dev_size (length all_sentences)) all_sentences"

section \<open>The run\<close>

text \<open>
  \<^verbatim>\<open>main\<close> acts on the file system, the console and the state of the module-level
  random generator. Each \<^verbatim>\<open>print\<close> is recorded as a message that carries the values the
  printed text is formatted from. The result of \<^verbatim>\<open>input_dir.glob('*.conllu')\<close>, the paths
  found in the order the directory yields them, is an argument.
\<close>

datatype py_error = ZeroDivisionError | FileNotFoundError

datatype outcome = Returned | Raised py_error

datatype message =
    No_files_found string
  | Found_files nat string
  | Reading string
  | Found_sentences nat
  | Total_collected nat
  | Files_processed nat
  | Split_sizes
  | Size_line string int nat
  | Writing nat string
  | Done
  | File_size string nat
  | File_not_created string

record 'g world =
  fs :: "string \<rightharpoonup> string"
  stdout :: "message list"
  rng :: 'g

definition print :: "message \<Rightarrow> 'g world \<Rightarrow> 'g world" where
  "print m w = w\<lparr>stdout := stdout w @ [m]\<rparr>"

definition input_dir :: string where
  "input_dir = ''raw/diachron''"

definition train_file :: string where
  "train_file = ''diachron-ud-train.conllu''"

definition dev_file :: string where
  "dev_file = ''diachron-ud-dev.conllu''"

definition test_file :: string where
  "test_file = ''diachron-ud-test.conllu''"

text \<open>The loop over \<^verbatim>\<open>conllu_files\<close>; a path that cannot be opened raises.\<close>

fun read_files ::
  "string list \<Rightarrow> sentence list \<times> nat \<times> 'g world \<Rightarrow>
     py_error \<times> 'g world + sentence list \<times> nat \<times> 'g world" where
  "read_files [] (all_sentences, total_files_processed, w) =
     Inr (all_sentences, total_files_processed, w)"
| "read_files (file_path # rest) (all_sentences, total_files_processed, w) =
     (let w1 = print (Reading file_path) w in
      case fs w1 file_path of
        None \<Rightarrow> Inl (FileNotFoundError, w1)
      | Some content \<Rightarrow>
          let sentences = read_conllu_sentences content;
              w2 = print (Found_sentences (length sentences)) w1
          in read_files rest (all_sentences @ sentences, total_files_processed + 1, w2))"

text \<open>The loop that writes the output files, and the loop that reports their sizes.\<close>

fun write_files :: "platform \<Rightarrow> (sentence list \<times> string) list \<Rightarrow> 'g world \<Rightarrow> 'g world" where
  "write_files p [] w = w"
| "write_files p ((sentences, filename) # rest) w =
     (let w1 = print (Writing (length sentences) filename) w;
          w2 = w1\<lparr>fs := (fs w1)(filename \<mapsto> text_write p (write_conllu_sentences sentences))\<rparr>
      in write_files p rest w2)"

fun verify_files :: "(sentence list \<times> string) list \<Rightarrow> 'g world \<Rightarrow> 'g world" where
  "verify_files [] w = w"
| "verify_files ((sentences, filename) # rest) w =
     (case fs w filename of
        Some content \<Rightarrow> verify_files rest (print (File_size filename (length content)) w)
      | None \<Rightarrow> verify_files rest (print (File_not_created filename) w))"

text \<open>
  The statements of \<^verbatim>\<open>main\<close> after the reading loop. The percentages of the size report
  divide by \<^verbatim>\<open>total_sentences\<close>, which raises when no sentence was read.
\<close>

definition split_and_write ::
  "platform \<Rightarrow> (int \<Rightarrow> 'g) \<Rightarrow> ('g \<Rightarrow> nat \<Rightarrow> nat \<times> 'g) \<Rightarrow>
     sentence list \<Rightarrow> nat \<Rightarrow> 'g world \<Rightarrow> outcome \<times> 'g world" where
  "split_and_write p seed randbelow collected total_files_processed w =
     (let w1 = print (Total_collected (length collected)) w;
          w2 = print (Files_processed total_files_processed) w1
      in case shuffle randbelow (seed 42) collected of
        (all_sentences, g) \<Rightarrow>
          let w3 = w2\<lparr>rng := g\<rparr>;
              total_sentences = length all_sentences;
              w4 = print Split_sizes w3
          in if total_sentences = 0 then (Raised ZeroDivisionError, w4)
             else
               let w5 = print (Size_line ''Train'' (int (train_size total_sentences)) total_sentences) w4;
                   w6 = print (Size_line ''Dev'' (int (dev_size total_sentences)) total_sentences) w5;
                   w7 = print (Size_line ''Test'' (test_size total_sentences) total_sentences) w6;
                   output_files =
                     [(train_sentences all_sentences, train_file),
                      (dev_sentences all_sentences, dev_file),
                      (test_sentences all_sentences, test_file)];
                   w8 = write_files p output_files w7;
                   w9 = print Done w8
               in (Returned, verify_files output_files w9))"

definition main ::
  "platform \<Rightarrow> (int \<Rightarrow> 'g) \<Rightarrow> ('g \<Rightarrow> nat \<Rightarrow> nat \<times> 'g) \<Rightarrow>
     string list \<Rightarrow> 'g world \<Rightarrow> outcome \<times> 'g world" where
  "main p seed randbelow conllu_files w =
     (if conllu_files = [] then (Returned, print (No_files_found input_dir) w)
      else
        let w1 = print (Found_files (length conllu_files) input_dir) w in
        case read_files conllu_files ([], 0, w1) of
          Inl (e, w2) \<Rightarrow> (Raised e, w2)
        | Inr (collected, total_files_processed, w2) \<Rightarrow>
            split_and_write p seed randbelow collected total_files_processed w2)"

section \<open>Example inputs\<close>

text \<open>
  A generator whose \<open>randbelow\<close> always returns 0 and counts its calls, and two states
  of the world that agree on the one input file and differ in everything else.
\<close>

definition demo_randbelow :: "nat \<Rightarrow> nat \<Rightarrow> nat \<times> nat" where
  "demo_randbelow g n = (0, Suc g)"

definition demo_world1 :: "nat world" where
  "demo_world1 = \<lparr>fs = [''raw/diachron/a.conllu'' \<mapsto> ''x'' @ [NL, NL] @ ''y'' @ [NL]],
     stdout = [], rng = 0\<rparr>"

definition demo_world2 :: "nat world" where
  "demo_world2 = \<lparr>fs = [''raw/diachron/a.conllu'' \<mapsto> ''x'' @ [NL, NL] @ ''y'' @ [NL],
       ''diachron-ud-train.conllu'' \<mapsto> ''old''],
     stdout = [Done], rng = 7\<rparr>"

section \<open>Properties of the reader\<close>

lemma rstrip_nl_snoc: "rstrip_nl (x @ [NL]) = rstrip_nl x"
  by (simp add: rstrip_nl_def)

lemma rstrip_nl_line:
  assumes "l \<noteq> []" and "NL \<notin> set l"
  shows "rstrip_nl (l @ [NL]) = l"
proof -
  have "last l \<noteq> NL" using assms last_in_set [of l] by metis
  then have "dropWhile (\<lambda>c. c = NL) (rev l) = rev l"
    using assms(1) by (cases "rev l") (auto simp: last_rev)
  then show ?thesis by (simp add: rstrip_nl_def)
qed

lemma rstrip_nl_Cons:
  "rstrip_nl (c # cs) = (if c = NL \<and> rstrip_nl cs = [] then [] else c # rstrip_nl cs)"
  by (auto simp: rstrip_nl_def dropWhile_append dropWhile_eq_Nil_conv)

lemma rstrip_nl_spec: "rstrip_nl l = spec_line_content l"
proof (induction l)
  case Nil
  show ?case by (simp add: rstrip_nl_def)
next
  case (Cons c cs)
  then show ?case by (simp only: rstrip_nl_Cons spec_line_content.simps)
qed

lemma rstrip_nl_replicate: "rstrip_nl (replicate k NL) = []"
  by (simp add: rstrip_nl_def dropWhile_eq_Nil_conv)

lemma concat_split_lines: "concat (split_lines cur t) = cur @ t"
  by (induction t arbitrary: cur) auto

lemma read_loop_append:
  "read_loop (xs @ ys) st = read_loop ys (read_loop xs st)"
proof (induction xs arbitrary: st)
  case Nil
  show ?case by (cases st) simp
next
  case (Cons x xs)
  show ?case by (cases st) (simp add: Let_def Cons.IH)
qed

lemma read_loop_nonempty:
  "[] \<notin> set (fst st) \<Longrightarrow> [] \<notin> set (fst (read_loop ls st))"
proof (induction ls arbitrary: st)
  case Nil
  then show ?case by (cases st) simp
next
  case (Cons l ls)
  obtain S c where st: "st = (S, c)" by (cases st)
  from Cons.prems st have S: "[] \<notin> set S" by simp
  show ?case
  proof (cases "rstrip_nl l = []")
    case True
    then show ?thesis
      using Cons.IH [of "(S @ [c], [])"] Cons.IH [of "(S, c)"] S st by (auto simp: Let_def)
  next
    case False
    then show ?thesis
      using Cons.IH [of "(S, c @ [rstrip_nl l])"] S st by (simp add: Let_def)
  qed
qed

lemma read_conllu_lines_nonempty: "[] \<notin> set (read_conllu_lines ls)"
proof -
  obtain S c where r: "read_loop ls ([], []) = (S, c)"
    by (cases "read_loop ls ([], [])")
  have "[] \<notin> set (fst (read_loop ls ([], [])))"
    by (rule read_loop_nonempty) simp
  with r have "[] \<notin> set S" by simp
  with r show ?thesis by (simp add: read_conllu_lines_def)
qed

text \<open>
  Claim C8. No sentence returned by the reader is empty, whatever the lines are:
  leading blank lines and runs of blank lines produce no empty sentence. This holds
  for every sequence of lines, and so for the lines of every file content.
\<close>

theorem read_conllu_sentences_no_empty_sentence:
  "[] \<notin> set (read_conllu_lines ls) \<and> [] \<notin> set (read_conllu_sentences content)"
  by (simp add: read_conllu_lines_nonempty read_conllu_sentences_def)

lemma sentence_runs_Nil: "sentence_runs [] = []"
  by (simp add: sentence_runs.simps)

lemma sentence_runs_blank: "sentence_runs ([] # ls) = sentence_runs ls"
  by (simp add: sentence_runs.simps [of "[] # ls"] sentence_runs.simps [of ls])

lemma sentence_runs_content:
  "l \<noteq> [] \<Longrightarrow> sentence_runs (l # ls) =
     (l # takeWhile (\<lambda>l. l \<noteq> []) ls) # sentence_runs (dropWhile (\<lambda>l. l \<noteq> []) ls)"
  by (simp add: sentence_runs.simps [of "l # ls"])

lemma read_loop_runs:
  "read_finish (read_loop ls (S, c)) =
     S @ (if c = [] then sentence_runs (map rstrip_nl ls)
          else (c @ takeWhile (\<lambda>l. l \<noteq> []) (map rstrip_nl ls))
                 # sentence_runs (dropWhile (\<lambda>l. l \<noteq> []) (map rstrip_nl ls)))"
proof (induction ls arbitrary: S c)
  case Nil
  show ?case by (simp add: sentence_runs_Nil)
next
  case (Cons l ls)
  show ?case
  proof (cases "rstrip_nl l = []")
    case True
    then show ?thesis
      by (simp add: Let_def Cons.IH sentence_runs_blank)
  next
    case False
    then show ?thesis
      by (simp add: Let_def Cons.IH sentence_runs_content)
  qed
qed

lemma concat_read_loop:
  "concat (read_finish (read_loop ls (S, c))) =
     concat S @ concat [c] @ filter (\<lambda>l. l \<noteq> []) (map rstrip_nl ls)"
  by (induction ls arbitrary: S c) (simp_all add: Let_def)

text \<open>
  Claim C4. The reader takes the lines in order, one at a time: the state after the
  lines \<open>ls @ [l]\<close> is the state after \<open>ls\<close>, changed by \<open>l\<close> alone. A line that
  is empty once the line feeds at its end are removed closes the sentence being
  accumulated, which is added to the result when it is not empty, and the accumulator
  is reset; any other line is added, without the line feeds at its end, to the
  accumulator. At the end of the input an accumulator that is not empty is added as the
  last sentence. Consequently the result is the list of the maximal runs of non-blank
  lines, and its concatenation is the list of the non-blank lines in file order: each
  of them is in exactly one sentence, and nothing is reordered. (A blank line is a
  separator and belongs to no sentence.) The same holds for the lines of every file
  content, which are the pieces of the content, read with its line endings as line
  feeds, cut after each line feed. The content of
  a line is stated with \<open>spec_line_content\<close>, not with the function the reader
  calls, and the last three facts are the reader on one sequence of lines and on one file
  content.
\<close>

theorem read_conllu_sentences_in_order:
  "read_loop (ls @ [l]) ([], []) =
     (case read_loop ls ([], []) of (sentences, current_sentence) \<Rightarrow>
        if spec_line_content l = [] then
          (if current_sentence \<noteq> [] then (sentences @ [current_sentence], [])
           else (sentences, current_sentence))
        else (sentences, current_sentence @ [spec_line_content l]))
   \<and> read_conllu_lines ls =
     (case read_loop ls ([], []) of (sentences, current_sentence) \<Rightarrow>
        if current_sentence \<noteq> [] then sentences @ [current_sentence] else sentences)
   \<and> read_conllu_lines ls = sentence_runs (map spec_line_content ls)
   \<and> concat (read_conllu_lines ls) = filter (\<lambda>l. l \<noteq> []) (map spec_line_content ls)
   \<and> read_conllu_sentences content = sentence_runs (map spec_line_content (text_lines content))
   \<and> concat (read_conllu_sentences content) =
       filter (\<lambda>l. l \<noteq> []) (map spec_line_content (text_lines content))
   \<and> concat (text_lines content) = universal_newlines content
   \<and> read_conllu_lines [''# c'' @ [NL], ''1 a'' @ [NL], [NL], [NL], ''2 b'' @ [NL], ''3 d'']
       = [[''# c'', ''1 a''], [''2 b'', ''3 d'']]
   \<and> text_lines (''a'' @ [NL, NL] @ ''b c'' @ [NL] @ ''d'') = [''a'' @ [NL], [NL], ''b c'' @ [NL], ''d'']
   \<and> read_conllu_sentences (''a'' @ [NL, NL] @ ''b c'' @ [NL] @ ''d'') = [[''a''], [''b c'', ''d'']]"
proof -
  obtain S c where r: "read_loop ls ([], []) = (S, c)"
    by (cases "read_loop ls ([], [])")
  have strip: "map rstrip_nl xs = map spec_line_content xs" for xs
    by (simp add: rstrip_nl_spec)
  have runs: "read_conllu_lines xs = sentence_runs (map spec_line_content xs)" for xs
    using read_loop_runs [of xs "[]" "[]"] by (simp add: read_conllu_lines_def strip)
  have cat: "concat (read_conllu_lines xs) = filter (\<lambda>l. l \<noteq> []) (map spec_line_content xs)" for xs
    using concat_read_loop [of xs "[]" "[]"] by (simp add: read_conllu_lines_def strip)
  have step: "read_loop (ls @ [l]) ([], []) =
     (if spec_line_content l = [] then (if c \<noteq> [] then (S @ [c], []) else (S, c))
      else (S, c @ [spec_line_content l]))"
    using r by (simp add: read_loop_append Let_def rstrip_nl_spec)
  have fin: "read_conllu_lines ls = (if c \<noteq> [] then S @ [c] else S)"
    using r by (simp add: read_conllu_lines_def)
  have ex1: "read_conllu_lines [''# c'' @ [NL], ''1 a'' @ [NL], [NL], [NL], ''2 b'' @ [NL], ''3 d'']
       = [[''# c'', ''1 a''], [''2 b'', ''3 d'']]"
    by (simp add: read_conllu_lines_def rstrip_nl_def Let_def)
  have ex2: "text_lines (''a'' @ [NL, NL] @ ''b c'' @ [NL] @ ''d'') = [''a'' @ [NL], [NL], ''b c'' @ [NL], ''d'']"
    by (simp add: text_lines_def)
  have ex3: "read_conllu_sentences (''a'' @ [NL, NL] @ ''b c'' @ [NL] @ ''d'') = [[''a''], [''b c'', ''d'']]"
    by (simp add: read_conllu_sentences_def read_conllu_lines_def text_lines_def rstrip_nl_def Let_def)
  have tl: "concat (text_lines content) = universal_newlines content"
    by (simp add: text_lines_def concat_split_lines)
  show ?thesis
    unfolding read_conllu_sentences_def [of content]
    using step fin runs [of ls] cat [of ls] runs [of "text_lines content"]
      cat [of "text_lines content"] r ex1 ex2 ex3 tl
    by simp
qed

lemma universal_newlines_snoc:
  "universal_newlines (c @ [NL]) =
     (if c \<noteq> [] \<and> last c = CR then universal_newlines c else universal_newlines c @ [NL])"
  by (induction c rule: universal_newlines.induct) auto

lemma read_split_lines_snoc:
  "read_finish (read_loop (split_lines cur (t @ [NL])) (S, c)) =
   read_finish (read_loop (split_lines cur t) (S, c))"
proof (induction t arbitrary: cur S c)
  case Nil
  show ?case by (simp add: rstrip_nl_snoc Let_def) (simp add: rstrip_nl_def)
next
  case (Cons a t)
  show ?case
  proof (cases "a = NL")
    case True
    then show ?thesis by (simp add: Let_def Cons.IH)
  next
    case False
    then show ?thesis by (simp add: Cons.IH)
  qed
qed

text \<open>
  Claim C9. A trailing empty line changes nothing: the lines followed by one more,
  empty, line give the same sentences (so the same number of sentences) as the lines
  alone, and a file content followed by one more line terminator gives the same
  sentences as the content alone.
\<close>

theorem read_conllu_sentences_trailing_blank:
  "read_conllu_lines (ls @ [[NL]]) = read_conllu_lines ls
   \<and> length (read_conllu_lines (ls @ [[NL]])) = length (read_conllu_lines ls)
   \<and> read_conllu_sentences (content @ [NL]) = read_conllu_sentences content"
proof -
  obtain S c where r: "read_loop ls ([], []) = (S, c)"
    by (cases "read_loop ls ([], [])")
  then have "read_conllu_lines (ls @ [[NL]]) = read_conllu_lines ls"
    by (simp add: read_conllu_lines_def read_loop_append rstrip_nl_def)
  moreover have "read_conllu_sentences (content @ [NL]) = read_conllu_sentences content"
    by (simp add: read_conllu_sentences_def read_conllu_lines_def text_lines_def
        universal_newlines_snoc read_split_lines_snoc)
  ultimately show ?thesis by simp
qed

lemma universal_newlines_no_CR: "CR \<notin> set (universal_newlines c)"
  by (induction c rule: universal_newlines.induct) auto

lemma text_lines_no_CR: "CR \<notin> set (concat (text_lines content))"
  by (simp add: text_lines_def concat_split_lines universal_newlines_no_CR del: set_concat)

section \<open>Properties of the writer\<close>

lemma write_lines_eq: "write_lines s f = f @ spec_sentence_text s"
  by (induction s arbitrary: f) (simp_all add: spec_sentence_text_def)

lemma write_loop_eq:
  "i + length ss = n \<Longrightarrow> write_loop n ss i f = f @ spec_written_text ss"
proof (induction ss arbitrary: i f rule: spec_written_text.induct)
  case 1
  show ?case by simp
next
  case (2 s)
  then show ?case by (simp add: write_lines_eq)
next
  case (3 s t rest)
  have "write_loop n (s # t # rest) i f =
          write_loop n (t # rest) (i + 1) (f @ spec_sentence_text s @ [NL])"
    using "3.prems"
    by (simp add: write_lines_eq del: write_loop.simps(2) add: write_loop.simps(2) [of n s])
  also have "\<dots> = (f @ spec_sentence_text s @ [NL]) @ spec_written_text (t # rest)"
    using "3.prems" by (intro "3.IH") simp
  finally show ?case by simp
qed

lemma text_write_Posix: "text_write Posix s = s"
  by (induction s) (simp_all add: text_write_def)

text \<open>
  Claim C5. For every list of sentences the writer produces the lines of each sentence
  in order, each followed by one line terminator, one blank line between consecutive
  sentences, and nothing after the last sentence. On a platform whose line separator is
  the line feed this text is the content of the file.
\<close>

theorem write_conllu_sentences_text:
  "write_conllu_sentences ss = spec_written_text ss
   \<and> text_write Posix (write_conllu_sentences ss) = spec_written_text ss"
  by (simp add: write_conllu_sentences_def write_loop_eq text_write_Posix)

section \<open>Writing, then reading\<close>

lemma universal_newlines_Cons:
  "c \<noteq> CR \<Longrightarrow> universal_newlines (c # t) = c # universal_newlines t"
  by (cases t) simp_all

lemma universal_newlines_text_write:
  "CR \<notin> set t \<Longrightarrow> universal_newlines (text_write p t) = t"
proof (induction t)
  case Nil
  show ?case by (simp add: text_write_def)
next
  case (Cons c t)
  then have IH: "universal_newlines (text_write p t) = t" and c: "c \<noteq> CR" by auto
  have tw: "text_write p (c # t) = (if c = NL then linesep p else [c]) @ text_write p t"
    by (simp add: text_write_def)
  show ?case
  proof (cases "c = NL")
    case True
    then show ?thesis using IH tw by (cases p) (simp_all add: universal_newlines_Cons)
  next
    case False
    then show ?thesis using IH tw c by (simp add: universal_newlines_Cons)
  qed
qed

lemma split_lines_line:
  "NL \<notin> set l \<Longrightarrow> split_lines cur (l @ NL # rest) = (cur @ l @ [NL]) # split_lines [] rest"
  by (induction l arbitrary: cur) auto

lemma split_lines_sentence:
  "list_all plain_line s \<Longrightarrow>
   split_lines [] (spec_sentence_text s @ rest) = map (\<lambda>l. l @ [NL]) s @ split_lines [] rest"
proof (induction s)
  case Nil
  show ?case by (simp add: spec_sentence_text_def)
next
  case (Cons l s)
  then have "NL \<notin> set l" by (simp add: plain_line_def)
  from split_lines_line [OF this, of "[]"] Cons show ?case
    by (simp add: spec_sentence_text_def)
qed

lemma read_loop_sentence:
  "list_all plain_line s \<Longrightarrow>
   read_loop (map (\<lambda>l. l @ [NL]) s @ rest) (S, c) = read_loop rest (S, c @ s)"
proof (induction s arbitrary: c)
  case Nil
  show ?case by simp
next
  case (Cons l s)
  then have l: "rstrip_nl (l @ [NL]) = l" "l \<noteq> []"
    by (simp_all add: rstrip_nl_line plain_line_def)
  with Cons show ?case by (simp add: Let_def)
qed

lemma read_written:
  "list_all plain_sentence ss \<Longrightarrow>
   read_finish (read_loop (split_lines [] (spec_written_text ss)) (S, [])) = S @ ss"
proof (induction ss arbitrary: S rule: spec_written_text.induct)
  case 1
  show ?case by simp
next
  case (2 s)
  then have s: "list_all plain_line s" "s \<noteq> []" by (simp_all add: plain_sentence_def)
  from split_lines_sentence [OF s(1), of "[]"] read_loop_sentence [OF s(1), of "[]" S "[]"] s(2)
  show ?case by simp
next
  case (3 s t rest)
  then have s: "list_all plain_line s" "s \<noteq> []" by (simp_all add: plain_sentence_def)
  have "split_lines [] (spec_written_text (s # t # rest)) =
          map (\<lambda>l. l @ [NL]) s @ [NL] # split_lines [] (spec_written_text (t # rest))"
    using split_lines_sentence [OF s(1), of "NL # spec_written_text (t # rest)"] by simp
  then have "read_loop (split_lines [] (spec_written_text (s # t # rest))) (S, []) =
          read_loop (split_lines [] (spec_written_text (t # rest))) (S @ [s], [])"
    using read_loop_sentence [OF s(1), of _ S "[]"] s(2) by (simp add: Let_def rstrip_nl_def)
  moreover have "list_all plain_sentence (t # rest)" using "3.prems" by simp
  ultimately show ?case using "3.IH" [of "S @ [s]"] by simp
qed

lemma spec_sentence_text_no_CR:
  "list_all plain_line s \<Longrightarrow> CR \<notin> set (spec_sentence_text s)"
  by (induction s) (auto simp: spec_sentence_text_def plain_line_def)

lemma spec_written_text_no_CR:
  "list_all plain_sentence ss \<Longrightarrow> CR \<notin> set (spec_written_text ss)"
  by (induction ss rule: spec_written_text.induct)
     (auto simp: plain_sentence_def dest: spec_sentence_text_no_CR)

lemma read_text_of_written:
  assumes "list_all plain_sentence ss"
  shows "read_conllu_lines (text_lines (text_write p (spec_written_text ss))) = ss"
proof -
  have "universal_newlines (text_write p (spec_written_text ss)) = spec_written_text ss"
    using assms by (intro universal_newlines_text_write spec_written_text_no_CR)
  then show ?thesis
    using read_written [OF assms, of "[]"]
    by (simp add: text_lines_def read_conllu_lines_def)
qed

text \<open>
  Claim C2. When every sentence of a partition is a non-empty list of non-empty lines
  that hold no line terminator (neither a line feed nor a carriage return), reading the
  file that \<^verbatim>\<open>write_conllu_sentences\<close> wrote gives back the list of sentences that was
  written: the same sentences, in the same order, with the same lines. This holds on
  both platforms.
\<close>

theorem write_then_read_round_trip:
  assumes "list_all plain_sentence ss"
  shows "read_conllu_sentences (text_write p (write_conllu_sentences ss)) = ss"
proof -
  have w: "write_conllu_sentences ss = spec_written_text ss"
    by (simp add: write_conllu_sentences_def write_loop_eq)
  have "read_conllu_lines (text_lines (text_write p (spec_written_text ss))) = ss"
    using assms by (rule read_text_of_written)
  then show ?thesis
    by (simp add: read_conllu_sentences_def w)
qed


theorem write_then_read_round_trip_witness:
  "list_all plain_sentence [[''# text'', ''1 a''], [''1 b'']]
   \<and> read_conllu_sentences
       (text_write Windows (write_conllu_sentences [[''# text'', ''1 a''], [''1 b'']]))
     = [[''# text'', ''1 a''], [''1 b'']]"
proof -
  have h: "list_all plain_sentence [[''# text'', ''1 a''], [''1 b'']]"
    by (simp add: plain_sentence_def plain_line_def)
  from write_then_read_round_trip [OF h, of Windows] h show ?thesis by simp
qed

text \<open>
  The carriage return is a line terminator here: a line that holds one is written as it
  is and read back as two lines.
\<close>

lemma carriage_return_breaks_round_trip:
  "read_conllu_sentences (text_write Posix (write_conllu_sentences [[''a'' @ [CR] @ ''b'']]))
     = [[''a'', ''b'']]"
  by (simp add: read_conllu_sentences_def read_conllu_lines_def text_lines_def rstrip_nl_def
      Let_def write_conllu_sentences_def text_write_def)

text \<open>
  Every sentence list the reader returns is of the kind the round trip holds for: its
  sentences are not empty, and their lines are not empty and hold neither a line feed
  nor a carriage return.
\<close>

lemma split_lines_shape:
  "NL \<notin> set cur \<Longrightarrow> l \<in> set (split_lines cur t) \<Longrightarrow>
     \<exists>l'. NL \<notin> set l' \<and> (l = l' \<or> l = l' @ [NL])"
proof (induction t arbitrary: cur)
  case Nil
  then show ?case by (auto split: if_splits)
next
  case (Cons c t)
  show ?case
  proof (cases "c = NL")
    case True
    with Cons.prems have "l = cur @ [NL] \<or> l \<in> set (split_lines [] t)" by simp
    then show ?thesis
    proof
      assume "l = cur @ [NL]"
      with Cons.prems(1) show ?thesis by blast
    next
      assume "l \<in> set (split_lines [] t)"
      with Cons.IH [of "[]"] show ?thesis by simp
    qed
  next
    case False
    with Cons.prems have "NL \<notin> set (cur @ [c])" "l \<in> set (split_lines (cur @ [c]) t)" by auto
    then show ?thesis by (rule Cons.IH)
  qed
qed

lemma rstrip_nl_no_NL: "NL \<notin> set l \<Longrightarrow> rstrip_nl l = l"
proof (cases "l = []")
  case True
  then show ?thesis by (simp add: rstrip_nl_def)
next
  case False
  assume "NL \<notin> set l"
  with False have "rstrip_nl (l @ [NL]) = l" by (rule rstrip_nl_line)
  then show ?thesis by (simp add: rstrip_nl_snoc)
qed

lemma set_rstrip_nl: "set (rstrip_nl l) \<subseteq> set l"
  using set_dropWhileD [of _ "\<lambda>c. c = NL" "rev l"] by (auto simp: rstrip_nl_def)

lemma text_lines_rstrip_plain:
  assumes "l \<in> set (text_lines content)" and "rstrip_nl l \<noteq> []"
  shows "plain_line (rstrip_nl l)"
proof -
  from assms(1) obtain l' where l': "NL \<notin> set l'" "l = l' \<or> l = l' @ [NL]"
    using split_lines_shape [of "[]" l "universal_newlines content"]
    by (auto simp: text_lines_def)
  then have "rstrip_nl l = l'" by (auto simp: rstrip_nl_no_NL rstrip_nl_snoc)
  moreover have "CR \<notin> set l"
    using text_lines_no_CR [of content] assms(1) by auto
  then have "CR \<notin> set (rstrip_nl l)" using set_rstrip_nl [of l] by auto
  ultimately show ?thesis using l'(1) assms(2) by (simp add: plain_line_def)
qed

lemma reader_output_plain: "list_all plain_sentence (read_conllu_sentences content)"
proof -
  let ?ls = "text_lines content"
  have cat: "concat (read_conllu_lines ?ls) = filter (\<lambda>l. l \<noteq> []) (map rstrip_nl ?ls)"
    using concat_read_loop [of ?ls "[]" "[]"] by (simp add: read_conllu_lines_def)
  have "plain_sentence s" if s: "s \<in> set (read_conllu_lines ?ls)" for s
  proof -
    have "s \<noteq> []" using s read_conllu_lines_nonempty [of ?ls] by auto
    moreover have "plain_line x" if "x \<in> set s" for x
    proof -
      from that s have "x \<in> set (concat (read_conllu_lines ?ls))" by auto
      with cat have "x \<in> set (filter (\<lambda>l. l \<noteq> []) (map rstrip_nl ?ls))" by simp
      then obtain l where "l \<in> set ?ls" "x = rstrip_nl l" "x \<noteq> []" by auto
      then show ?thesis using text_lines_rstrip_plain by blast
    qed
    ultimately show ?thesis by (simp add: plain_sentence_def list_all_iff)
  qed
  then show ?thesis by (simp add: read_conllu_sentences_def list_all_iff)
qed

section \<open>Carriage returns and blank lines\<close>

lemma universal_newlines_id: "CR \<notin> set t \<Longrightarrow> universal_newlines t = t"
  by (induction t rule: universal_newlines.induct) auto

lemma universal_newlines_idem: "universal_newlines (universal_newlines c) = universal_newlines c"
  by (rule universal_newlines_id) (rule universal_newlines_no_CR)

text \<open>
  Claim C10, as stated, fails for the carriage return. The file is read in text mode,
  so the line terminators \<^verbatim>\<open>'\r\n'\<close> reach the loop as \<^verbatim>\<open>'\n'\<close>: in the content
  \<^verbatim>\<open>'a\r\n\r\nb\r\n'\<close> the second line, which holds a carriage return only, is a
  sentence boundary, and is not added to a sentence.
\<close>

theorem crlf_blank_line_is_boundary:
  "read_conllu_sentences (''a'' @ [CR, NL, CR, NL] @ ''b'' @ [CR, NL]) = [[''a''], [''b'']]"
  by (simp add: read_conllu_sentences_def read_conllu_lines_def text_lines_def rstrip_nl_def
      Let_def)

text \<open>
  Claim C10, amended. Only a line that is empty once its trailing line feeds are
  removed is a sentence boundary: a line of line feeds closes the sentence being
  accumulated, and a line that is not empty and holds other characters only, such as
  spaces or tabs, is not treated as blank; it is added, without its terminator, to the
  sentence being accumulated, whether it ends in a line feed or is the last,
  unterminated, line. A carriage return never reaches this test: the lines of a file
  content hold none, a content is read as its translation to line feeds is, and a text
  written with CRLF line endings is read as the text with line feeds is, so that a blank
  line with a CRLF ending is a sentence boundary; two lone carriage returns are a blank
  line as well.
\<close>

theorem whitespace_line_is_content:
  assumes "l \<noteq> []" and "NL \<notin> set l"
  shows "rstrip_nl (l @ [NL]) = l \<and> rstrip_nl l = l
     \<and> read_loop (ls @ [l @ [NL]]) ([], []) =
         (fst (read_loop ls ([], [])), snd (read_loop ls ([], [])) @ [l])
     \<and> read_loop (ls @ [l]) ([], []) =
         (fst (read_loop ls ([], [])), snd (read_loop ls ([], [])) @ [l])
     \<and> read_loop (ls @ [replicate k NL]) ([], []) =
         (case read_loop ls ([], []) of (sentences, current_sentence) \<Rightarrow>
            if current_sentence \<noteq> [] then (sentences @ [current_sentence], [])
            else (sentences, current_sentence))
     \<and> CR \<notin> set (concat (text_lines content))
     \<and> read_conllu_sentences content = read_conllu_sentences (universal_newlines content)
     \<and> (CR \<notin> set t \<longrightarrow>
          read_conllu_sentences (text_write Windows t) = read_conllu_sentences t)
     \<and> read_conllu_sentences (''a'' @ [CR, CR] @ ''b'') = [[''a''], [''b'']]"
proof -
  have a: "rstrip_nl (l @ [NL]) = l" using assms by (rule rstrip_nl_line)
  then have b: "rstrip_nl l = l" by (simp add: rstrip_nl_snoc)
  obtain S c where r: "read_loop ls ([], []) = (S, c)"
    by (cases "read_loop ls ([], [])")
  have s1: "read_loop (ls @ [l @ [NL]]) ([], []) = (S, c @ [l])"
    using r a assms(1) by (simp add: read_loop_append Let_def)
  have s2: "read_loop (ls @ [l]) ([], []) = (S, c @ [l])"
    using r b assms(1) by (simp add: read_loop_append Let_def)
  have s3: "read_loop (ls @ [replicate k NL]) ([], []) =
      (if c \<noteq> [] then (S @ [c], []) else (S, c))"
    using r by (simp add: read_loop_append Let_def rstrip_nl_replicate)
  have u: "read_conllu_sentences content = read_conllu_sentences (universal_newlines content)"
    by (simp add: read_conllu_sentences_def text_lines_def universal_newlines_idem)
  have w: "CR \<notin> set t \<longrightarrow>
          read_conllu_sentences (text_write Windows t) = read_conllu_sentences t"
    by (simp add: read_conllu_sentences_def text_lines_def universal_newlines_text_write
        universal_newlines_id)
  have e: "read_conllu_sentences (''a'' @ [CR, CR] @ ''b'') = [[''a''], [''b'']]"
    by (simp add: read_conllu_sentences_def read_conllu_lines_def text_lines_def rstrip_nl_def
        Let_def)
  from a b s1 s2 s3 u w e text_lines_no_CR [of content] r show ?thesis
    by (simp del: set_concat)
qed

theorem whitespace_line_is_content_witness:
  "read_loop ([''a'' @ [NL]] @ [[CHR '' '', CHR 0x09] @ [NL]]) ([], [])
     = ([], [''a'', [CHR '' '', CHR 0x09]])
   \<and> read_loop ([''a'' @ [NL]] @ [[CHR '' '', CHR 0x09]]) ([], [])
     = ([], [''a'', [CHR '' '', CHR 0x09]])
   \<and> read_loop ([''a'' @ [NL]] @ [replicate 1 NL]) ([], []) = ([[''a'']], [])
   \<and> read_conllu_sentences (text_write Windows (''a'' @ [NL, NL] @ ''b'' @ [NL]))
     = [[''a''], [''b'']]"
proof -
  have t: "CR \<notin> set (''a'' @ [NL, NL] @ ''b'' @ [NL])" by simp
  have r: "read_conllu_sentences (''a'' @ [NL, NL] @ ''b'' @ [NL]) = [[''a''], [''b'']]"
    by (simp add: read_conllu_sentences_def read_conllu_lines_def text_lines_def rstrip_nl_def
        Let_def)
  have l: "read_loop [''a'' @ [NL]] ([], []) = ([], [''a''])"
    by (simp add: rstrip_nl_def Let_def)
  from whitespace_line_is_content [of "[CHR '' '', CHR 0x09]" "[''a'' @ [NL]]" 1 "[]" "''a'' @ [NL, NL] @ ''b'' @ [NL]"]
    t r l
  show ?thesis by (simp del: read_loop.simps replicate.simps)
qed

section \<open>Properties of the split sizes\<close>

lemma bitlen_0 [simp]: "bitlen 0 = 0"
  by (simp add: bitlen.simps)

lemma bitlen_pos: "0 < n \<Longrightarrow> bitlen n = Suc (bitlen (n div 2))"
  by (subst bitlen.simps) simp

lemma bitlen_upper: "n < 2 ^ bitlen n"
proof (induction n rule: bitlen.induct)
  case (1 n)
  show ?case
  proof (cases "n = 0")
    case True
    then show ?thesis by simp
  next
    case False
    then have "n div 2 < 2 ^ bitlen (n div 2)" using 1 by simp
    then have "n < 2 * 2 ^ bitlen (n div 2)" by linarith
    with False show ?thesis by (simp add: bitlen_pos)
  qed
qed

lemma bitlen_lower: "0 < n \<Longrightarrow> 2 ^ (bitlen n - 1) \<le> n"
proof (induction n rule: bitlen.induct)
  case (1 n)
  show ?case
  proof (cases "n div 2 = 0")
    case True
    with "1.prems" have "n = 1" by linarith
    then show ?thesis by (simp add: bitlen_pos)
  next
    case False
    then have "2 ^ (bitlen (n div 2) - 1) \<le> n div 2" using 1 by simp
    moreover have "bitlen (n div 2) = Suc (bitlen (n div 2) - 1)"
      using False by (simp add: bitlen_pos)
    ultimately have "2 ^ bitlen (n div 2) \<le> 2 * (n div 2)"
      by (metis power_Suc mult_le_mono2)
    then have "2 ^ bitlen (n div 2) \<le> n" by linarith
    with "1.prems" show ?thesis by (simp add: bitlen_pos)
  qed
qed

lemma bitlen_le: "n < 2 ^ k \<Longrightarrow> bitlen n \<le> k"
proof (cases "n = 0")
  case True
  then show ?thesis by simp
next
  case False
  assume "n < 2 ^ k"
  moreover have "2 ^ (bitlen n - 1) \<le> n" using bitlen_lower [of n] False by simp
  ultimately have "(2::nat) ^ (bitlen n - 1) < 2 ^ k" by (rule order.strict_trans1 [rotated])
  then have "bitlen n - 1 < k" by simp
  then show ?thesis by simp
qed

lemma bitlen_eq: "2 ^ k \<le> n \<Longrightarrow> n < 2 ^ Suc k \<Longrightarrow> bitlen n = Suc k"
proof -
  assume a: "2 ^ k \<le> n" and b: "n < 2 ^ Suc k"
  from b have "bitlen n \<le> Suc k" by (rule bitlen_le)
  moreover have "(2::nat) ^ k < 2 ^ bitlen n" using a bitlen_upper [of n] by linarith
  then have "k < bitlen n" by simp
  ultimately show ?thesis by simp
qed

lemma round_half_even_lower: "m div 2 ^ s \<le> round_half_even m s"
  by (simp add: round_half_even_def Let_def)

lemma round_half_even_0: "round_half_even m 0 = m"
  by (simp add: round_half_even_def Let_def)

lemma round53_small: "n < 2 ^ 53 \<Longrightarrow> round53 n = n"
  using bitlen_le [of n 53] by (simp add: round53_def Let_def round_half_even_0)

lemma round53_lower:
  assumes "K * 2 ^ t \<le> m" and "bitlen m - 53 \<le> t"
  shows "K * 2 ^ t \<le> round53 m"
proof -
  define s where "s = bitlen m - 53"
  have "K * 2 ^ t = (K * 2 ^ (t - s)) * 2 ^ s"
    using assms(2) by (simp add: s_def power_add [symmetric])
  with assms(1) have "K * 2 ^ (t - s) \<le> m div 2 ^ s"
    by (simp add: less_eq_div_iff_mult_less_eq)
  then have "K * 2 ^ (t - s) \<le> round_half_even m s"
    using round_half_even_lower [of m s] by linarith
  then have "(K * 2 ^ (t - s)) * 2 ^ s \<le> round_half_even m s * 2 ^ s"
    by (rule mult_le_mono1)
  then have "K * 2 ^ t \<le> round_half_even m s * 2 ^ s"
    using \<open>K * 2 ^ t = (K * 2 ^ (t - s)) * 2 ^ s\<close> by (simp only:)
  then show ?thesis
    by (simp add: round53_def Let_def s_def)
qed

lemma round_half_even_upper: "2 * (round_half_even m s * 2 ^ s) \<le> 2 * m + 2 ^ s"
proof -
  have m: "m = (m div 2 ^ s) * 2 ^ s + m mod 2 ^ s" by (rule div_mult_mod_eq [symmetric])
  define q where "q = m div 2 ^ s"
  define r where "r = m mod 2 ^ s"
  define P where "P = (2::nat) ^ s"
  have mq: "m = q * P + r" using m by (simp add: q_def r_def P_def)
  have "round_half_even m s = q \<or> (round_half_even m s = q + 1 \<and> P \<le> 2 * r)"
    unfolding round_half_even_def Let_def q_def r_def P_def by (simp split: if_splits)
  then consider "round_half_even m s = q" | "round_half_even m s = q + 1" "P \<le> 2 * r"
    by blast
  then show ?thesis
  proof cases
    case 1
    then show ?thesis using mq by (simp add: P_def [symmetric])
  next
    case 2
    then show ?thesis using mq by (simp add: P_def [symmetric] algebra_simps)
  qed
qed

lemma round53_upper: "2 * round53 m \<le> 2 * m + 2 ^ (bitlen m - 53)"
  using round_half_even_upper [of m "bitlen m - 53"] by (simp add: round53_def Let_def)

lemma bitlen_minus_le: "m < 2 ^ (53 + t) \<Longrightarrow> bitlen m - 53 \<le> t"
  using bitlen_le [of m "53 + t"] by simp

lemma train_size_exact:
  assumes "n < 1688849860263936"
  shows "train_size n = (4 * n) div 5"
proof -
  define M where "M = 3602879701896397 * n"
  define k where "k = (4 * n) div 5"
  define R where "R = round53 M"
  note n = assms
  have k1: "5 * k \<le> 4 * n" and k2: "4 * n \<le> 5 * k + 4"
    unfolding k_def by simp_all
  have "round53 n = n" using n by (intro round53_small) simp
  then have ts: "train_size n = R div 2 ^ 52"
    by (simp add: train_size_def R_def M_def)
  have "M < 2 ^ (53 + 50)" using n by (simp add: M_def)
  then have s: "bitlen M - 53 \<le> 50" by (rule bitlen_minus_le)
  have "k * 2 ^ 52 \<le> M" using k1 by (simp add: M_def)
  then have "k * 2 ^ 52 \<le> round53 M"
    using s by (intro round53_lower) simp_all
  then have lo: "2 ^ 52 * k \<le> R" by (simp add: R_def mult.commute)
  have "(2::nat) ^ (bitlen M - 53) \<le> 2 ^ 50"
    using s by (intro power_increasing) simp_all
  with round53_upper [of M] have "2 * R \<le> 2 * M + 1125899906842624"
    by (simp add: R_def)
  with k2 n have "R < 4503599627370496 * Suc k" by (simp add: M_def)
  then have hi: "R < 2 ^ 52 * Suc k" by simp
  from lo hi have "R div 2 ^ 52 = k" by (rule div_nat_eqI)
  with ts show ?thesis by (simp add: k_def)
qed

lemma dev_size_exact:
  assumes "n < 1688849860263936"
  shows "dev_size n = n div 10"
proof -
  define M where "M = 3602879701896397 * n"
  define k where "k = n div 10"
  define R where "R = round53 M"
  note n = assms
  have k1: "10 * k \<le> n" and k2: "n \<le> 10 * k + 9"
    unfolding k_def by simp_all
  have "round53 n = n" using n by (intro round53_small) simp
  then have ts: "dev_size n = R div 2 ^ 55"
    by (simp add: dev_size_def R_def M_def)
  have "M < 2 ^ (53 + 50)" using n by (simp add: M_def)
  then have s: "bitlen M - 53 \<le> 50" by (rule bitlen_minus_le)
  have "k * 2 ^ 55 \<le> M" using k1 by (simp add: M_def)
  then have "k * 2 ^ 55 \<le> round53 M"
    using s by (intro round53_lower) simp_all
  then have lo: "2 ^ 55 * k \<le> R" by (simp add: R_def mult.commute)
  have "(2::nat) ^ (bitlen M - 53) \<le> 2 ^ 50"
    using s by (intro power_increasing) simp_all
  with round53_upper [of M] have "2 * R \<le> 2 * M + 1125899906842624"
    by (simp add: R_def)
  with k2 n have "R < 36028797018963968 * Suc k" by (simp add: M_def)
  then have hi: "R < 2 ^ 55 * Suc k" by simp
  from lo hi have "R div 2 ^ 55 = k" by (rule div_nat_eqI)
  with ts show ?thesis by (simp add: k_def)
qed

lemma round53_relative: "2 ^ 53 * round53 m \<le> (2 ^ 53 + 1) * m"
proof (cases "bitlen m \<le> 53")
  case True
  then show ?thesis by (simp add: round53_def Let_def round_half_even_0)
next
  case False
  define s where "s = bitlen m - 53"
  have "0 < m" using False by (cases "m = 0") simp_all
  then have "2 ^ (bitlen m - 1) \<le> m" by (rule bitlen_lower)
  moreover have "bitlen m - 1 = s + 52" using False by (simp add: s_def)
  ultimately have "2 ^ s * 2 ^ 52 \<le> m" by (simp add: power_add)
  moreover have "2 * round53 m \<le> 2 * m + 2 ^ s"
    using round53_upper [of m] by (simp add: s_def)
  ultimately show ?thesis by simp
qed

lemma sizes_sum_le: "train_size n + dev_size n \<le> n"
proof -
  define a where "a = round53 n"
  define R where "R = round53 (3602879701896397 * a)"
  have 1: "2 ^ 53 * a \<le> (2 ^ 53 + 1) * n"
    unfolding a_def by (rule round53_relative)
  have 2: "2 ^ 53 * R \<le> (2 ^ 53 + 1) * (3602879701896397 * a)"
    unfolding R_def by (rule round53_relative)
  have 3: "2 ^ 52 * train_size n \<le> R"
    by (simp add: train_size_def R_def a_def)
  have 4: "2 ^ 55 * dev_size n \<le> R"
    by (simp add: dev_size_def R_def a_def)
  from 1 2 3 4 show ?thesis by simp
qed

lemma test_size_nonneg: "0 \<le> test_size n"
  using sizes_sum_le [of n] by (simp add: test_size_def)

lemma floor_eight_tenths: "\<lfloor>(8 / 10 :: rat) * of_nat n\<rfloor> = int ((4 * n) div 5)"
proof -
  have "(8 / 10 :: rat) * of_nat n = of_int (int (4 * n)) / of_int 5" by simp
  then have "\<lfloor>(8 / 10 :: rat) * of_nat n\<rfloor> = int (4 * n) div 5"
    by (simp only: floor_divide_of_int_eq)
  then show ?thesis by (simp add: zdiv_int)
qed

lemma floor_one_tenth: "\<lfloor>(1 / 10 :: rat) * of_nat n\<rfloor> = int (n div 10)"
proof -
  have "(1 / 10 :: rat) * of_nat n = of_int (int n) / of_int 10" by simp
  then have "\<lfloor>(1 / 10 :: rat) * of_nat n\<rfloor> = int n div 10"
    by (simp only: floor_divide_of_int_eq)
  then show ?thesis by (simp add: zdiv_int)
qed

lemma train_size_large: "train_size 1688849860263936 = 1351079888211149"
proof -
  have n: "round53 1688849860263936 = 1688849860263936"
    by (rule round53_small) simp
  have b: "bitlen 6084722881095501464954147438592 = Suc 102"
    by (rule bitlen_eq) simp_all
  have "round53 6084722881095501464954147438592 = 6084722881095502027904100859904"
    by (simp add: round53_def b round_half_even_def Let_def)
  then show ?thesis
    by (simp add: train_size_def n)
qed

text \<open>
  Claim C3, as stated, fails for very large totals: the sizes are computed in double
  precision, and for 1688849860263936 sentences the product with 0.8 rounds up to the
  next integer, so that \<^verbatim>\<open>train_size\<close> is one more than the floor of the exact
  product.
\<close>

theorem train_size_not_exact_floor:
  "int (train_size 1688849860263936) \<noteq> \<lfloor>(8 / 10 :: rat) * of_nat 1688849860263936\<rfloor>"
proof -
  have "(4 * 1688849860263936) div 5 = (1351079888211148 :: nat)" by simp
  then have "\<lfloor>(8 / 10 :: rat) * of_nat 1688849860263936\<rfloor> = 1351079888211148"
    by (simp only: floor_eight_tenths)
  then show ?thesis by (simp add: train_size_large)
qed

text \<open>
  Claim C3, amended. For every total, \<^verbatim>\<open>test_size\<close> is the total minus the two other
  sizes and is never negative. For every total below 1688849860263936, \<^verbatim>\<open>train_size\<close> is the
  floor of the exact product of 8/10 and the total, and \<^verbatim>\<open>dev_size\<close> is the floor of the
  exact product of 1/10 and the total. For 10 sentences the sizes are 8, 1 and 1; for 7
  sentences they are 5, 0 and 2.
\<close>

theorem split_sizes:
  "test_size total_sentences = int total_sentences - int (train_size total_sentences) - int (dev_size total_sentences)
   \<and> 0 \<le> test_size total_sentences
   \<and> (total_sentences < 1688849860263936 \<longrightarrow>
        int (train_size total_sentences) = \<lfloor>(8 / 10 :: rat) * of_nat total_sentences\<rfloor>
      \<and> int (dev_size total_sentences) = \<lfloor>(1 / 10 :: rat) * of_nat total_sentences\<rfloor>)
   \<and> (train_size 10 = 8 \<and> dev_size 10 = 1 \<and> test_size 10 = 1)
   \<and> (train_size 7 = 5 \<and> dev_size 7 = 0 \<and> test_size 7 = 2)"
proof -
  have a: "train_size 10 = 8" "dev_size 10 = 1" "train_size 7 = 5" "dev_size 7 = 0"
    by (simp_all add: train_size_exact dev_size_exact)
  then have b: "test_size 10 = 1" "test_size 7 = 2" by (simp_all add: test_size_def)
  have "total_sentences < 1688849860263936 \<longrightarrow>
        int (train_size total_sentences) = \<lfloor>(8 / 10 :: rat) * of_nat total_sentences\<rfloor>
      \<and> int (dev_size total_sentences) = \<lfloor>(1 / 10 :: rat) * of_nat total_sentences\<rfloor>"
    by (simp only: floor_eight_tenths floor_one_tenth) (simp add: train_size_exact dev_size_exact)
  with a b test_size_nonneg [of total_sentences] show ?thesis by (simp add: test_size_def)
qed

theorem split_sizes_witness:
  "int (train_size 1000) = \<lfloor>(8 / 10 :: rat) * of_nat 1000\<rfloor>
   \<and> int (dev_size 1000) = \<lfloor>(1 / 10 :: rat) * of_nat 1000\<rfloor> \<and> 0 \<le> test_size 1000"
  using split_sizes [of 1000] by simp

section \<open>Properties of the shuffle and the slices\<close>

lemma shuffle_loop_mset:
  assumes rb: "\<forall>g n. 0 < n \<longrightarrow> fst (randbelow g n) < n"
  shows "k < length x \<Longrightarrow> mset (fst (shuffle_loop randbelow k (x, g))) = mset x"
proof (induction k arbitrary: x g)
  case 0
  show ?case by simp
next
  case (Suc k)
  obtain j g' where r: "randbelow g (Suc k + 1) = (j, g')"
    by (cases "randbelow g (Suc k + 1)")
  have "fst (randbelow g (Suc k + 1)) < Suc k + 1" using rb by simp
  with r Suc.prems have j: "j < length x" by simp
  have sw: "mset (x[Suc k := x ! j, j := x ! Suc k]) = mset x"
    using j Suc.prems by (rule mset_swap)
  have "k < length (x[Suc k := x ! j, j := x ! Suc k])" using Suc.prems by simp
  from Suc.IH [OF this, of g'] sw r show ?case by (simp add: Let_def)
qed

lemma shuffle_mset:
  assumes "\<forall>g n. 0 < n \<longrightarrow> fst (randbelow g n) < n"
  shows "mset (fst (shuffle randbelow g x)) = mset x"
proof (cases x)
  case Nil
  then show ?thesis by (simp add: shuffle_def)
next
  case (Cons a t)
  then have "length x - 1 < length x" by simp
  from shuffle_loop_mset [OF assms this] show ?thesis by (simp add: shuffle_def)
qed

lemma shuffle_loop_length: "length (fst (shuffle_loop randbelow k (x, g))) = length x"
proof (induction k arbitrary: x g)
  case 0
  show ?case by simp
next
  case (Suc k)
  show ?case by (simp add: Let_def Suc.IH split: prod.split)
qed

lemma shuffle_length: "length (fst (shuffle randbelow g x)) = length x"
  by (simp add: shuffle_def shuffle_loop_length)

lemma slices_append:
  "train_sentences a @ dev_sentences a @ test_sentences a = a"
proof -
  have "take d (drop t a) @ drop (t + d) a = drop t a" for t d
    by (metis add.commute append_take_drop_id drop_drop)
  then show ?thesis
    by (simp add: train_sentences_def dev_sentences_def test_sentences_def)
qed

text \<open>
  Claim C1. For every corpus, the three slices of the shuffled list have lengths that
  sum to the length of the corpus, and the multiset union of their sentences is the
  multiset of the sentences of the corpus: no sentence is lost or duplicated. The
  slices, one after the other, are the shuffled list. The shuffle exchanges elements at the indices the generator returns; \<^verbatim>\<open>randbelow(n)\<close>
  returns a number below \<open>n\<close>.
\<close>

theorem partitions_conserve_corpus:
  assumes "\<forall>g n. 0 < n \<longrightarrow> fst (randbelow g n) < n"
  shows "length (train_sentences (fst (shuffle randbelow (seed (42::int)) corpus)))
         + length (dev_sentences (fst (shuffle randbelow (seed 42) corpus)))
         + length (test_sentences (fst (shuffle randbelow (seed 42) corpus))) = length corpus
     \<and> mset (train_sentences (fst (shuffle randbelow (seed 42) corpus)))
         + mset (dev_sentences (fst (shuffle randbelow (seed 42) corpus)))
         + mset (test_sentences (fst (shuffle randbelow (seed 42) corpus))) = mset corpus
     \<and> train_sentences (fst (shuffle randbelow (seed 42) corpus))
         @ dev_sentences (fst (shuffle randbelow (seed 42) corpus))
         @ test_sentences (fst (shuffle randbelow (seed 42) corpus))
       = fst (shuffle randbelow (seed 42) corpus)"
proof -
  let ?a = "fst (shuffle randbelow (seed 42) corpus)"
  have app: "train_sentences ?a @ dev_sentences ?a @ test_sentences ?a = ?a"
    by (rule slices_append)
  have "length (train_sentences ?a @ dev_sentences ?a @ test_sentences ?a) = length corpus"
    unfolding app by (rule shuffle_length)
  then have l: "length (train_sentences ?a) + length (dev_sentences ?a)
      + length (test_sentences ?a) = length corpus"
    by simp
  have "mset (train_sentences ?a @ dev_sentences ?a @ test_sentences ?a) = mset corpus"
    unfolding app using assms by (rule shuffle_mset)
  then have m: "mset (train_sentences ?a) + mset (dev_sentences ?a)
      + mset (test_sentences ?a) = mset corpus"
    by (simp add: add.assoc)
  from l m app show ?thesis by blast
qed

theorem partitions_conserve_corpus_witness:
  "train_sentences (fst (shuffle demo_randbelow (nat 42) [[''a''], [''b''], [''c'']])) = [[''b''], [''c'']]
   \<and> dev_sentences (fst (shuffle demo_randbelow (nat 42) [[''a''], [''b''], [''c'']])) = []
   \<and> test_sentences (fst (shuffle demo_randbelow (nat 42) [[''a''], [''b''], [''c'']])) = [[''a'']]
   \<and> mset (train_sentences (fst (shuffle demo_randbelow (nat 42) [[''a''], [''b''], [''c'']])))
         + mset (dev_sentences (fst (shuffle demo_randbelow (nat 42) [[''a''], [''b''], [''c'']])))
         + mset (test_sentences (fst (shuffle demo_randbelow (nat 42) [[''a''], [''b''], [''c'']])))
       = mset [[''a''], [''b''], [''c'']]"
proof -
  have h: "\<forall>g n. 0 < n \<longrightarrow> fst (demo_randbelow g n) < n" by (simp add: demo_randbelow_def)
  have s: "fst (shuffle demo_randbelow (nat 42) [[''a''], [''b''], [''c'']]) = [[''b''], [''c''], [''a'']]"
    by (simp add: shuffle_def demo_randbelow_def Let_def)
  have "train_size 3 = 2" "dev_size 3 = 0" by (simp_all add: train_size_exact dev_size_exact)
  then have "train_sentences [[''b''], [''c''], [''a'']] = [[''b''], [''c'']]"
     "dev_sentences [[''b''], [''c''], [''a'']] = []"
     "test_sentences [[''b''], [''c''], [''a'']] = [[''a'']]"
    by (simp_all add: train_sentences_def dev_sentences_def test_sentences_def
        numeral_3_eq_3 [symmetric])
  with partitions_conserve_corpus [OF h, of nat "[[''a''], [''b''], [''c'']]"] s show ?thesis by simp
qed

section \<open>Properties of the run\<close>

lemma fs_print [simp]: "fs (print m w) = fs w"
  by (simp add: print_def)

lemma rng_print [simp]: "rng (print m w) = rng w"
  by (simp add: print_def)

text \<open>
  Claim C7. When no input file is found, the run prints that no file was found in the
  input directory and returns: nothing is raised, and the file system is as before, so
  no output file is written.
\<close>

theorem main_without_input_files:
  "main p seed randbelow [] w = (Returned, w\<lparr>stdout := stdout w @ [No_files_found ''raw/diachron'']\<rparr>)
   \<and> fs (snd (main p seed randbelow [] w)) = fs w"
  by (simp add: main_def print_def input_dir_def)

lemma read_files_fs:
  "read_files files (a, n, w) = Inr (a', n', w') \<Longrightarrow> fs w' = fs w"
proof (induction files arbitrary: a n w)
  case Nil
  then show ?case by simp
next
  case (Cons f files)
  then show ?case
    by (cases "fs w f") (auto simp: Let_def dest!: Cons.IH)
qed

lemma read_files_deterministic:
  assumes "\<forall>path\<in>set files. fs w1 path = fs w2 path"
  shows "map_sum fst (\<lambda>(a', n', w'). (a', n')) (read_files files (a, n, w1)) =
         map_sum fst (\<lambda>(a', n', w'). (a', n')) (read_files files (a, n, w2))"
  using assms
proof (induction files arbitrary: a n w1 w2)
  case Nil
  show ?case by simp
next
  case (Cons f files)
  from Cons.prems have f: "fs w1 f = fs w2 f" by simp
  show ?case
  proof (cases "fs w1 f")
    case None
    with f show ?thesis by (simp add: Let_def)
  next
    case (Some content)
    let ?m = "Found_sentences (length (read_conllu_sentences content))"
    have "\<forall>path\<in>set files.
            fs (print ?m (print (Reading f) w1)) path = fs (print ?m (print (Reading f) w2)) path"
      using Cons.prems by simp
    from Cons.IH [OF this] Some f show ?thesis by (simp add: Let_def)
  qed
qed

lemma fs_verify_files [simp]: "fs (verify_files outs w) = fs w"
  by (induction outs arbitrary: w) (auto split: option.split)

lemma rng_verify_files [simp]: "rng (verify_files outs w) = rng w"
  by (induction outs arbitrary: w) (auto split: option.split)

lemma rng_write_files [simp]: "rng (write_files p outs w) = rng w"
  by (induction outs arbitrary: w) (auto simp: Let_def)

lemma file_names_distinct:
  "train_file \<noteq> dev_file" "train_file \<noteq> test_file" "dev_file \<noteq> test_file"
  by (simp_all add: train_file_def dev_file_def test_file_def)

lemma fs_write_files:
  "fs (write_files p [(t, train_file), (d, dev_file), (s, test_file)] w) =
     (fs w)(train_file \<mapsto> text_write p (write_conllu_sentences t),
            dev_file \<mapsto> text_write p (write_conllu_sentences d),
            test_file \<mapsto> text_write p (write_conllu_sentences s))"
  by (simp add: Let_def)

lemma split_and_write_result:
  "fst (split_and_write p seed randbelow collected n w) =
     (if collected = [] then Raised ZeroDivisionError else Returned)
   \<and> rng (snd (split_and_write p seed randbelow collected n w)) =
       snd (shuffle randbelow (seed 42) collected)
   \<and> fs (snd (split_and_write p seed randbelow collected n w)) =
     (if collected = [] then fs w
      else (fs w)
        (train_file \<mapsto> text_write p (write_conllu_sentences
                         (train_sentences (fst (shuffle randbelow (seed 42) collected)))),
         dev_file \<mapsto> text_write p (write_conllu_sentences
                         (dev_sentences (fst (shuffle randbelow (seed 42) collected)))),
         test_file \<mapsto> text_write p (write_conllu_sentences
                         (test_sentences (fst (shuffle randbelow (seed 42) collected))))))"
proof -
  obtain a g where sh: "shuffle randbelow (seed 42) collected = (a, g)"
    by (cases "shuffle randbelow (seed 42) collected")
  have len: "length a = length collected"
    using shuffle_length [of randbelow "seed 42" collected] sh by simp
  show ?thesis
  proof (cases "collected = []")
    case True
    with len sh show ?thesis by (simp add: split_and_write_def Let_def del: write_files.simps verify_files.simps)
  next
    case False
    with len have "a \<noteq> []" by auto
    with False sh show ?thesis
      by (simp add: split_and_write_def Let_def fs_write_files del: write_files.simps verify_files.simps)
  qed
qed

lemma main_cases:
  assumes "conllu_files \<noteq> []"
  shows "(\<exists>e w'. read_files conllu_files ([], 0, print (Found_files (length conllu_files) input_dir) w) = Inl (e, w')
            \<and> main p seed randbelow conllu_files w = (Raised e, w'))
       \<or> (\<exists>c n w'. read_files conllu_files ([], 0, print (Found_files (length conllu_files) input_dir) w) = Inr (c, n, w')
            \<and> fs w' = fs w
            \<and> main p seed randbelow conllu_files w = split_and_write p seed randbelow c n w')"
proof (cases "read_files conllu_files ([], 0, print (Found_files (length conllu_files) input_dir) w)")
  case (Inl a)
  then show ?thesis using assms by (cases a) (simp add: main_def Let_def)
next
  case (Inr b)
  obtain c n w' where b: "b = (c, n, w')" by (cases b)
  with Inr have "fs w' = fs (print (Found_files (length conllu_files) input_dir) w)"
    by (auto dest: read_files_fs)
  with Inr b show ?thesis using assms by (simp add: main_def Let_def)
qed

lemma read_files_all:
  assumes "\<forall>f\<in>set files. fs w f \<noteq> None"
  shows "\<exists>w'. read_files files (a, n, w) =
            Inr (a @ concat (map (\<lambda>f. read_conllu_sentences (the (fs w f))) files),
                 n + length files, w') \<and> fs w' = fs w"
  using assms
proof (induction files arbitrary: a n w)
  case Nil
  show ?case by simp
next
  case (Cons f files)
  then obtain content where c: "fs w f = Some content" by auto
  let ?w = "print (Found_sentences (length (read_conllu_sentences content))) (print (Reading f) w)"
  have "\<forall>f\<in>set files. fs ?w f \<noteq> None" using Cons.prems by simp
  from Cons.IH [OF this, of "a @ read_conllu_sentences content" "n + 1"] c
  show ?case by (simp add: Let_def)
qed

lemma main_writes_partitions:
  assumes "conllu_files \<noteq> []" and "\<forall>f\<in>set conllu_files. fs w f \<noteq> None"
    and "concat (map (\<lambda>f. read_conllu_sentences (the (fs w f))) conllu_files) \<noteq> []"
  shows "fst (main p seed randbelow conllu_files w) = Returned
   \<and> fs (snd (main p seed randbelow conllu_files w)) =
     (fs w)
        (train_file \<mapsto> text_write p (write_conllu_sentences (train_sentences (fst
           (shuffle randbelow (seed 42)
             (concat (map (\<lambda>f. read_conllu_sentences (the (fs w f))) conllu_files)))))),
         dev_file \<mapsto> text_write p (write_conllu_sentences (dev_sentences (fst
           (shuffle randbelow (seed 42)
             (concat (map (\<lambda>f. read_conllu_sentences (the (fs w f))) conllu_files)))))),
         test_file \<mapsto> text_write p (write_conllu_sentences (test_sentences (fst
           (shuffle randbelow (seed 42)
             (concat (map (\<lambda>f. read_conllu_sentences (the (fs w f))) conllu_files)))))))"
proof -
  let ?w = "print (Found_files (length conllu_files) input_dir) w"
  let ?c = "concat (map (\<lambda>f. read_conllu_sentences (the (fs w f))) conllu_files)"
  have "\<forall>f\<in>set conllu_files. fs ?w f \<noteq> None" using assms(2) by simp
  from read_files_all [OF this, of "[]" 0]
  obtain w' where r: "read_files conllu_files ([], 0, ?w) = Inr (?c, length conllu_files, w')"
    and f: "fs w' = fs w" by auto
  from r assms(1) have "main p seed randbelow conllu_files w =
      split_and_write p seed randbelow ?c (length conllu_files) w'"
    by (simp add: main_def Let_def)
  with split_and_write_result [of p seed randbelow ?c "length conllu_files" w'] assms(3) f
  show ?thesis by simp
qed

lemma main_no_sentences:
  assumes "conllu_files \<noteq> []" and "\<forall>f\<in>set conllu_files. fs w f \<noteq> None"
    and "concat (map (\<lambda>f. read_conllu_sentences (the (fs w f))) conllu_files) = []"
  shows "fst (main p seed randbelow conllu_files w) = Raised ZeroDivisionError
   \<and> fs (snd (main p seed randbelow conllu_files w)) = fs w"
proof -
  let ?w = "print (Found_files (length conllu_files) input_dir) w"
  have "\<forall>f\<in>set conllu_files. fs ?w f \<noteq> None" using assms(2) by simp
  from read_files_all [OF this, of "[]" 0]
  obtain w' where "read_files conllu_files ([], 0, ?w) =
      Inr (concat (map (\<lambda>f. read_conllu_sentences (the (fs w f))) conllu_files),
           length conllu_files, w')"
    and f: "fs w' = fs w" by auto
  then have r: "read_files conllu_files ([], 0, ?w) = Inr ([], length conllu_files, w')"
    by (simp only: assms(3))
  from r assms(1) have "main p seed randbelow conllu_files w =
      split_and_write p seed randbelow [] (length conllu_files) w'"
    by (simp add: main_def Let_def)
  with split_and_write_result [of p seed randbelow "[]" "length conllu_files" w'] f
  show ?thesis by simp
qed

text \<open>
  The whole run: when the input files hold at least one sentence, reading each of the
  three output files again gives the slice that was written to it.
\<close>

lemma slices_plain:
  assumes "list_all plain_sentence a"
  shows "list_all plain_sentence (train_sentences a)"
    and "list_all plain_sentence (dev_sentences a)"
    and "list_all plain_sentence (test_sentences a)"
  using assms
  by (auto simp: list_all_iff train_sentences_def dev_sentences_def test_sentences_def
      dest: in_set_takeD in_set_dropD)

lemma main_outputs_read_back:
  assumes rb: "\<forall>g n. 0 < n \<longrightarrow> fst (randbelow g n) < n"
    and files: "conllu_files \<noteq> []" "\<forall>f\<in>set conllu_files. fs w f \<noteq> None"
    and corpus: "corpus = concat (map (\<lambda>f. read_conllu_sentences (the (fs w f))) conllu_files)"
      "corpus \<noteq> []"
    and res: "w' = snd (main p seed randbelow conllu_files w)"
    and shuffled: "a = fst (shuffle randbelow (seed 42) corpus)"
  shows "read_conllu_sentences (the (fs w' train_file)) = train_sentences a"
    and "read_conllu_sentences (the (fs w' dev_file)) = dev_sentences a"
    and "read_conllu_sentences (the (fs w' test_file)) = test_sentences a"
proof -
  have "list_all plain_sentence corpus"
    unfolding corpus(1) using reader_output_plain by (auto simp: list_all_iff)
  moreover have "set a = set corpus"
    using shuffle_mset [OF rb, of "seed 42" corpus] shuffled by (metis set_mset_mset)
  ultimately have "list_all plain_sentence a" by (simp add: list_all_iff)
  note plain = slices_plain [OF this]
  have w: "write_conllu_sentences ss = spec_written_text ss" for ss
    by (simp add: write_conllu_sentences_def write_loop_eq)
  have again: "read_conllu_sentences (text_write p (write_conllu_sentences ss)) = ss"
    if "list_all plain_sentence ss" for ss
    using read_text_of_written [OF that, of p] by (simp add: read_conllu_sentences_def w)
  from main_writes_partitions [OF files(1,2), of p seed randbelow] corpus
  have fs': "fs w' =
     (fs w)(train_file \<mapsto> text_write p (write_conllu_sentences (train_sentences a)),
            dev_file \<mapsto> text_write p (write_conllu_sentences (dev_sentences a)),
            test_file \<mapsto> text_write p (write_conllu_sentences (test_sentences a)))"
    by (simp add: res shuffled)
  show "read_conllu_sentences (the (fs w' train_file)) = train_sentences a"
    by (simp add: fs' file_names_distinct again [OF plain(1)])
  show "read_conllu_sentences (the (fs w' dev_file)) = dev_sentences a"
    by (simp add: fs' file_names_distinct again [OF plain(2)])
  show "read_conllu_sentences (the (fs w' test_file)) = test_sentences a"
    by (simp add: fs' file_names_distinct again [OF plain(3)])
qed

text \<open>
  Claim C6. Two runs that find the same paths in the same order, with the same content
  at each of them, have the same outcome, whatever else differs between the two states
  of the world: the state of the random generator, the console, the other files. When
  the run returns after reading input files, the train, dev and test files exist and
  have the same content in both runs, and the generator is left in the same state: it
  is seeded with 42 before the one shuffle of the collected sentences.
\<close>

theorem main_deterministic:
  assumes "\<forall>path\<in>set conllu_files. fs w1 path = fs w2 path"
  shows "fst (main p seed randbelow conllu_files w1) = fst (main p seed randbelow conllu_files w2)
     \<and> (conllu_files \<noteq> [] \<and> fst (main p seed randbelow conllu_files w1) = Returned \<longrightarrow>
          fs (snd (main p seed randbelow conllu_files w1)) train_file
            = fs (snd (main p seed randbelow conllu_files w2)) train_file
        \<and> fs (snd (main p seed randbelow conllu_files w1)) dev_file
            = fs (snd (main p seed randbelow conllu_files w2)) dev_file
        \<and> fs (snd (main p seed randbelow conllu_files w1)) test_file
            = fs (snd (main p seed randbelow conllu_files w2)) test_file
        \<and> fs (snd (main p seed randbelow conllu_files w1)) train_file \<noteq> None
        \<and> fs (snd (main p seed randbelow conllu_files w1)) dev_file \<noteq> None
        \<and> fs (snd (main p seed randbelow conllu_files w1)) test_file \<noteq> None
        \<and> rng (snd (main p seed randbelow conllu_files w1))
            = rng (snd (main p seed randbelow conllu_files w2)))"
proof (cases "conllu_files = []")
  case True
  then show ?thesis by (simp add: main_def)
next
  case False
  let ?m = "Found_files (length conllu_files) input_dir"
  have agree: "\<forall>path\<in>set conllu_files. fs (print ?m w1) path = fs (print ?m w2) path"
    using assms by simp
  note det = read_files_deterministic [OF agree, of "[]" 0]
  from main_cases [OF False, of w1 p seed randbelow]
  show ?thesis
  proof (elim disjE exE conjE)
    fix e w1'
    assume r1: "read_files conllu_files ([], 0, print ?m w1) = Inl (e, w1')"
      and m1: "main p seed randbelow conllu_files w1 = (Raised e, w1')"
    from det r1 obtain w2' where "read_files conllu_files ([], 0, print ?m w2) = Inl (e, w2')"
      by (cases "read_files conllu_files ([], 0, print ?m w2)") auto
    then have "main p seed randbelow conllu_files w2 = (Raised e, w2')"
      using False by (simp add: main_def Let_def)
    with m1 show ?thesis by simp
  next
    fix c n w1'
    assume r1: "read_files conllu_files ([], 0, print ?m w1) = Inr (c, n, w1')"
      and m1: "main p seed randbelow conllu_files w1 = split_and_write p seed randbelow c n w1'"
    from det r1 obtain w2' where "read_files conllu_files ([], 0, print ?m w2) = Inr (c, n, w2')"
      by (cases "read_files conllu_files ([], 0, print ?m w2)") auto
    then have m2: "main p seed randbelow conllu_files w2 = split_and_write p seed randbelow c n w2'"
      using False by (simp add: main_def Let_def)
    show ?thesis
      unfolding m1 m2
      using split_and_write_result [of p seed randbelow c n w1']
        split_and_write_result [of p seed randbelow c n w2']
      by (simp add: file_names_distinct)
  qed
qed

theorem main_deterministic_witness:
  "fst (main Posix nat demo_randbelow [''raw/diachron/a.conllu''] demo_world1) = Returned
   \<and> fst (main Posix nat demo_randbelow [''raw/diachron/a.conllu''] demo_world2) = Returned
   \<and> fs (snd (main Posix nat demo_randbelow [''raw/diachron/a.conllu''] demo_world1)) train_file
     = fs (snd (main Posix nat demo_randbelow [''raw/diachron/a.conllu''] demo_world2)) train_file
   \<and> fs (snd (main Posix nat demo_randbelow [''raw/diachron/a.conllu''] demo_world1)) dev_file
     = fs (snd (main Posix nat demo_randbelow [''raw/diachron/a.conllu''] demo_world2)) dev_file
   \<and> fs (snd (main Posix nat demo_randbelow [''raw/diachron/a.conllu''] demo_world1)) test_file
     = fs (snd (main Posix nat demo_randbelow [''raw/diachron/a.conllu''] demo_world2)) test_file
   \<and> rng (snd (main Posix nat demo_randbelow [''raw/diachron/a.conllu''] demo_world1))
     = rng (snd (main Posix nat demo_randbelow [''raw/diachron/a.conllu''] demo_world2))"
proof -
  have h: "\<forall>path\<in>set [''raw/diachron/a.conllu'']. fs demo_world1 path = fs demo_world2 path"
    by (simp add: demo_world1_def demo_world2_def)
  have c: "read_conllu_sentences [CHR ''x'', NL, NL, CHR ''y'', NL] = [[''x''], [''y'']]"
    by (simp add: read_conllu_sentences_def read_conllu_lines_def text_lines_def rstrip_nl_def
        Let_def)
  have r: "fst (main Posix nat demo_randbelow [''raw/diachron/a.conllu''] demo_world1) = Returned"
    using main_writes_partitions [of "[''raw/diachron/a.conllu'']" demo_world1 Posix nat demo_randbelow]
    by (simp add: demo_world1_def c)
  from main_deterministic [OF h, of Posix nat demo_randbelow] r show ?thesis by simp
qed

end
